theory Spec2Isabelle
  imports Main "HOL-Library.Word"
begin

section \<open>Shadow nodes in an explicit store\<close>

text \<open>
  The C++ class \<open>ShadowNode\<close> holds its children, its props, its event emitter and its
  local data through shared pointers, and several claims depend on which objects are
  aliased. The model therefore keeps an explicit store: every kind of heap object lives in
  a table, and a pointer is an index into its table. A pointer that does not lie inside its
  table stands for a null or dangling pointer; dereferencing it is a fault.
\<close>

type_synonym addr = nat
type_synonym lref = nat
type_synonym pref = nat
type_synonym eref = nat
type_synonym dref = nat

datatype fault = SealedMutation | NullDeref

text \<open>
  The fields of \<open>ShadowNode\<close>, named as in the source without the trailing underscore.
  \<open>Tag\<close> and the revision are C++ \<open>int\<close>. The field \<open>sealed\<close> is the flag of the base
  class \<open>Sealable\<close>. \<open>props\<close> and \<open>children\<close> are not nullable here: both constructors
  assert that they are not null.
\<close>

record shadow_node =
  tag :: "32 word"
  rootTag :: "32 word"
  props :: pref
  eventEmitter :: "eref option"
  children :: lref
  localData :: "dref option"
  cloneFunction :: "nat option"
  childrenAreShared :: bool
  revision :: "32 word"
  sealed :: bool

text \<open>
  \<open>ShadowNodeFragment\<close>, as the clone constructor reads it: every field is tested with
  \<open>?:\<close>, so a tag of 0 and a null pointer both mean "absent".
\<close>

record fragment =
  fragTag :: "32 word"
  fragRootTag :: "32 word"
  fragProps :: "pref option"
  fragEventEmitter :: "eref option"
  fragChildren :: "lref option"
  fragLocalData :: "dref option"

text \<open>
  The store. \<open>nodes\<close> holds the node objects, \<open>childLists\<close> the child vectors
  (\<open>SharedShadowNodeList\<close>), \<open>propsSealed\<close> the \<open>Sealable\<close> flag of every props object and
  \<open>emitterEnabled\<close> the state of every event emitter.
\<close>

record heap =
  nodes :: "shadow_node list"
  childLists :: "addr list list"
  propsSealed :: "bool list"
  emitterEnabled :: "bool list"

type_synonym 'a result = "(fault + 'a) \<times> heap"

definition getChildren :: "heap \<Rightarrow> addr \<Rightarrow> addr list" where
  "getChildren h this = childLists h ! children (nodes h ! this)"

subsection \<open>Sealable and the event emitter\<close>

text \<open>Modelled from the spec: \<open>Sealable::getSealed\<close>, which is not among the sources; it
  reports the sealed flag.\<close>
definition getSealed :: "heap \<Rightarrow> addr \<Rightarrow> bool" where
  "getSealed h this = sealed (nodes h ! this)"

text \<open>Modelled from the spec: \<open>Sealable::seal\<close>, which is not among the sources; it marks
  this node only as sealed and does not touch the children.\<close>
definition seal :: "heap \<Rightarrow> addr \<Rightarrow> heap" where
  "seal h this = h\<lparr>nodes := (nodes h)[this := (nodes h ! this)\<lparr>sealed := True\<rparr>]\<rparr>"

text \<open>Modelled from the spec: \<open>Props::seal\<close> (the payload's \<open>Sealable::seal\<close>), which is
  not among the sources; it marks the payload as sealed.\<close>
definition Props_seal :: "heap \<Rightarrow> pref \<Rightarrow> heap" where
  "Props_seal h p = h\<lparr>propsSealed := (propsSealed h)[p := True]\<rparr>"

text \<open>Modelled from the spec: \<open>Sealable::ensureUnsealed\<close>, which is not among the sources;
  it fails fatally if the node is sealed.\<close>
definition ensureUnsealed :: "heap \<Rightarrow> addr \<Rightarrow> fault option" where
  "ensureUnsealed h this =
     (if \<not> this < length (nodes h) then Some NullDeref
      else if getSealed h this then Some SealedMutation
      else None)"

text \<open>Modelled from the spec: \<open>EventEmitter::setEnabled\<close>, which is not among the sources;
  it enables or disables event delivery.\<close>
definition setEnabled :: "heap \<Rightarrow> eref \<Rightarrow> bool \<Rightarrow> heap" where
  "setEnabled h e enabled = h\<lparr>emitterEnabled := (emitterEnabled h)[e := enabled]\<rparr>"

subsection \<open>The clone constructor\<close>

text \<open>The operator \<open>a ?: b\<close> on an \<open>int\<close> and on a pointer.\<close>

definition elvisInt :: "32 word \<Rightarrow> 32 word \<Rightarrow> 32 word" where
  "elvisInt a b = (if a \<noteq> 0 then a else b)"

definition elvisPtr :: "'a option \<Rightarrow> 'a option \<Rightarrow> 'a option" where
  "elvisPtr a b = (case a of Some x \<Rightarrow> Some x | None \<Rightarrow> b)"

definition elvisRef :: "'a option \<Rightarrow> 'a \<Rightarrow> 'a" where
  "elvisRef a b = (case a of Some x \<Rightarrow> x | None \<Rightarrow> b)"

text \<open>
  \<open>ShadowNode::ShadowNode(sourceShadowNode, fragment)\<close>. The new object is allocated at the
  end of the node table; the result is its address. The base class \<open>Sealable\<close> is default
  constructed, so the new node is unsealed. The two assertions hold because the source's
  props and children are not null.
\<close>

definition cloneNode :: "shadow_node \<Rightarrow> fragment \<Rightarrow> shadow_node" where
  "cloneNode sourceShadowNode frag =
     \<lparr>tag = elvisInt (fragTag frag) (tag sourceShadowNode),
      rootTag = elvisInt (fragRootTag frag) (rootTag sourceShadowNode),
      props = elvisRef (fragProps frag) (props sourceShadowNode),
      eventEmitter = elvisPtr (fragEventEmitter frag) (eventEmitter sourceShadowNode),
      children = elvisRef (fragChildren frag) (children sourceShadowNode),
      localData = elvisPtr (fragLocalData frag) (localData sourceShadowNode),
      cloneFunction = cloneFunction sourceShadowNode,
      childrenAreShared = True,
      revision = revision sourceShadowNode + 1,
      sealed = False\<rparr>"

definition ShadowNode_clone :: "heap \<Rightarrow> addr \<Rightarrow> fragment \<Rightarrow> addr result" where
  "ShadowNode_clone h source frag =
     (if \<not> source < length (nodes h) then (Inl NullDeref, h)
      else (Inr (length (nodes h)),
            h\<lparr>nodes := nodes h @ [cloneNode (nodes h ! source) frag]\<rparr>))"

definition emptyFragment :: fragment where
  "emptyFragment =
     \<lparr>fragTag = 0, fragRootTag = 0, fragProps = None, fragEventEmitter = None,
      fragChildren = None, fragLocalData = None\<rparr>"

subsection \<open>Mutating methods\<close>

text \<open>\<open>ShadowNode::cloneChildrenIfShared\<close>: \<open>make_shared\<close> allocates a new vector, a copy
  of the current one, at the end of the table of vectors.\<close>

definition cloneChildrenIfShared :: "heap \<Rightarrow> addr \<Rightarrow> heap" where
  "cloneChildrenIfShared h this =
     (if \<not> childrenAreShared (nodes h ! this) then h
      else h\<lparr>nodes := (nodes h)[this := (nodes h ! this)
                 \<lparr>childrenAreShared := False, children := length (childLists h)\<rparr>],
             childLists := childLists h @ [childLists h ! children (nodes h ! this)]\<rparr>)"

text \<open>\<open>ShadowNode::appendChild\<close>. The parameter \<open>child\<close> is a reference too, but it is
  read once, by \<open>push_back\<close>, which copies its argument before it touches the vector; so
  it is taken by its value.\<close>

definition appendChild :: "heap \<Rightarrow> addr \<Rightarrow> addr \<Rightarrow> unit result" where
  "appendChild h this child =
     (case ensureUnsealed h this of
        Some e \<Rightarrow> (Inl e, h)
      | None \<Rightarrow>
          let h1 = cloneChildrenIfShared h this;
              l = children (nodes h1 ! this)
          in if \<not> l < length (childLists h1) then (Inl NullDeref, h1)
             else (Inr (), h1\<lparr>childLists := (childLists h1)[l := (childLists h1 ! l) @ [child]]\<rparr>))"

text \<open>
  The parameters \<open>oldChild\<close> and \<open>newChild\<close> of \<open>replaceChild\<close> have the type
  \<open>const SharedShadowNode &\<close>, and \<open>std::replace\<close> takes them on by reference. Such a
  reference is bound either to a pointer held outside every child vector (\<open>Held a\<close>, with
  the pointer's value \<open>a\<close>), or to element \<open>i\<close> of the child vector \<open>l\<close> of the store
  (\<open>Element l i\<close>); the second is what a call like \<open>replaceChild(getChildren()[0], n)\<close>
  passes. Reading the reference gives what the element holds at that moment.
\<close>

datatype nodeRef = Held addr | Element lref nat

definition refLive :: "heap \<Rightarrow> nodeRef \<Rightarrow> bool" where
  "refLive h r =
     (case r of
        Held a \<Rightarrow> True
      | Element l i \<Rightarrow> l < length (childLists h) \<and> i < length (childLists h ! l))"

definition deref :: "heap \<Rightarrow> nodeRef \<Rightarrow> addr" where
  "deref h r = (case r of Held a \<Rightarrow> a | Element l i \<Rightarrow> childLists h ! l ! i)"

text \<open>
  Vectors are owned by reference counting: the source frees a vector when its last holder
  lets go of it, and \<open>cloneChildrenIfShared\<close> makes the node let go of its old vector. The
  store keeps every vector, so this is written out: \<open>holders h l\<close> counts the nodes that
  hold the vector \<open>l\<close>, and a reference can be read during \<open>replaceChild\<close> on \<open>this\<close> when
  it is bound to an element of the store and not to an element of a vector that the call
  frees, that is, of the node's own vector when that is marked as shared and has no other
  holder.
\<close>

definition holders :: "heap \<Rightarrow> lref \<Rightarrow> nat" where
  "holders h l = length (filter (\<lambda>n. children n = l) (nodes h))"

definition refReadable :: "heap \<Rightarrow> addr \<Rightarrow> nodeRef \<Rightarrow> bool" where
  "refReadable h this r =
     (case r of
        Held a \<Rightarrow> True
      | Element l i \<Rightarrow>
          refLive h r
          \<and> \<not> (l = children (nodes h ! this) \<and> childrenAreShared (nodes h ! this)
                \<and> holders h l \<le> 1))"

text \<open>The assignment \<open>v[i] = value\<close> to an element of the child vector \<open>l\<close>.\<close>

definition assignElement :: "heap \<Rightarrow> lref \<Rightarrow> nat \<Rightarrow> addr \<Rightarrow> heap" where
  "assignElement h l i v = h\<lparr>childLists := (childLists h)[l := (childLists h ! l)[i := v]]\<rparr>"

text \<open>
  \<open>std::replace(first, last, old_value, new_value)\<close> on the child vector \<open>l\<close>: the loop
  \<open>for (; first != last; ++first) if (*first == old_value) *first = new_value;\<close>. The
  first argument is the number \<open>last - first\<close> of elements still to visit. Both values are
  read through their references in every round, so an assignment to the element that
  \<open>old_value\<close> is bound to changes what the later rounds compare with.
\<close>

primrec std_replace :: "nat \<Rightarrow> heap \<Rightarrow> lref \<Rightarrow> nat \<Rightarrow> nodeRef \<Rightarrow> nodeRef \<Rightarrow> heap" where
  "std_replace 0 h l first old_value new_value = h"
| "std_replace (Suc n) h l first old_value new_value =
     std_replace n
       (if childLists h ! l ! first = deref h old_value
        then assignElement h l first (deref h new_value) else h)
       l (Suc first) old_value new_value"

text \<open>
  The comparison \<open>suggestedIndex < nonConstChildren->size()\<close> is between an \<open>int\<close> and a
  \<open>size_t\<close>: the \<open>int\<close> is converted to \<open>size_t\<close>, that is, its value is reduced modulo
  \<open>2 ^ 64\<close>, and \<open>at\<close> and \<open>operator[]\<close> take the same converted value.
\<close>

definition to_size_t :: "32 word \<Rightarrow> nat" where
  "to_size_t i = nat (sint i mod 2 ^ 64)"

text \<open>
  \<open>ShadowNode::replaceChild\<close>. The two references are read only after \<open>ensureUnsealed\<close>
  and \<open>cloneChildrenIfShared\<close>; a reference that cannot be read then is a fault there.
  After a copy, a reference into the old vector reads the old vector, which another
  holder keeps alive.
\<close>

definition replaceChild ::
    "heap \<Rightarrow> addr \<Rightarrow> nodeRef \<Rightarrow> nodeRef \<Rightarrow> 32 word \<Rightarrow> unit result" where
  "replaceChild h this oldChild newChild suggestedIndex =
     (case ensureUnsealed h this of
        Some e \<Rightarrow> (Inl e, h)
      | None \<Rightarrow>
          if \<not> (refReadable h this oldChild \<and> refReadable h this newChild)
          then (Inl NullDeref, h)
          else
            let h1 = cloneChildrenIfShared h this;
                l = children (nodes h1 ! this)
            in if \<not> l < length (childLists h1) then (Inl NullDeref, h1)
               else
                 let nonConstChildren = childLists h1 ! l in
                 if suggestedIndex \<noteq> - 1
                    \<and> to_size_t suggestedIndex < length nonConstChildren
                    \<and> nonConstChildren ! to_size_t suggestedIndex = deref h1 oldChild
                 then (Inr (), assignElement h1 l (to_size_t suggestedIndex) (deref h1 newChild))
                 else (Inr (), std_replace (length nonConstChildren) h1 l 0 oldChild newChild))"

text \<open>\<open>ShadowNode::setLocalData\<close>.\<close>

definition setLocalData :: "heap \<Rightarrow> addr \<Rightarrow> dref option \<Rightarrow> unit result" where
  "setLocalData h this ld =
     (case ensureUnsealed h this of
        Some e \<Rightarrow> (Inl e, h)
      | None \<Rightarrow> (Inr (), h\<lparr>nodes := (nodes h)[this := (nodes h ! this)\<lparr>localData := ld\<rparr>]\<rparr>))"

text \<open>\<open>ShadowNode::setMounted\<close>: no call of \<open>ensureUnsealed\<close>.\<close>

definition setMounted :: "heap \<Rightarrow> addr \<Rightarrow> bool \<Rightarrow> unit result" where
  "setMounted h this mounted =
     (if \<not> this < length (nodes h) then (Inl NullDeref, h)
      else case eventEmitter (nodes h ! this) of
             None \<Rightarrow> (Inl NullDeref, h)
           | Some e \<Rightarrow>
               if \<not> e < length (emitterEnabled h) then (Inl NullDeref, h)
               else (Inr (), setEnabled h e mounted))"

subsection \<open>Ancestor path\<close>

text \<open>
  \<open>ShadowNode::constructAncestorPath\<close>. The recursion follows child pointers without any
  visited mark, so on a store with a cycle it does not return. The first argument is fuel,
  the number of nested calls still allowed; \<open>None\<close> means that the fuel ran out. The
  vector \<open>ancestors\<close> is passed in and returned together with the boolean result;
  \<open>push_back\<close> appends at its end. \<open>ancestorLoop\<close> is the \<open>for\<close> loop over the children
  of the presumed ancestor.
\<close>

fun constructAncestorPath ::
    "nat \<Rightarrow> heap \<Rightarrow> addr \<Rightarrow> addr \<Rightarrow> addr list \<Rightarrow> (fault + bool \<times> addr list) option"
  and ancestorLoop ::
    "nat \<Rightarrow> heap \<Rightarrow> addr \<Rightarrow> addr \<Rightarrow> addr list \<Rightarrow> addr list \<Rightarrow> (fault + bool \<times> addr list) option"
  where
  "constructAncestorPath 0 h this ancestorShadowNode ancestors = None"
| "constructAncestorPath (Suc k) h this ancestorShadowNode ancestors =
     (if this = ancestorShadowNode then Some (Inr (True, ancestors))
      else if \<not> ancestorShadowNode < length (nodes h) then Some (Inl NullDeref)
      else if \<not> children (nodes h ! ancestorShadowNode) < length (childLists h)
        then Some (Inl NullDeref)
      else ancestorLoop k h this ancestorShadowNode
             (childLists h ! children (nodes h ! ancestorShadowNode)) ancestors)"
| "ancestorLoop k h this ancestorShadowNode [] ancestors = Some (Inr (False, ancestors))"
| "ancestorLoop k h this ancestorShadowNode (childShadowNode # rest) ancestors =
     (case constructAncestorPath k h this childShadowNode ancestors of
        None \<Rightarrow> None
      | Some (Inl e) \<Rightarrow> Some (Inl e)
      | Some (Inr (found, ancestors')) \<Rightarrow>
          if found then Some (Inr (True, ancestors' @ [ancestorShadowNode]))
          else ancestorLoop k h this ancestorShadowNode rest ancestors')"

subsection \<open>Predicates used in the statements\<close>

text \<open>Every node's children handle is an allocated vector.\<close>

definition handlesValid :: "heap \<Rightarrow> bool" where
  "handlesValid h \<longleftrightarrow> (\<forall>n \<in> set (nodes h). children n < length (childLists h))"

text \<open>\<open>descends h a n\<close>: node \<open>n\<close> is reachable from \<open>a\<close> through children.\<close>

inductive descends :: "heap \<Rightarrow> addr \<Rightarrow> addr \<Rightarrow> bool" for h :: heap where
  here: "descends h a a"
| below: "c \<in> set (getChildren h a) \<Longrightarrow> descends h c n \<Longrightarrow> descends h a n"

code_pred descends .

text \<open>\<open>ancestorChain h n ps a\<close>: \<open>ps\<close> lists nodes from a parent of \<open>n\<close> upwards, each one a
  parent of the one before, and ends with \<open>a\<close>; it is empty exactly when \<open>n\<close> is \<open>a\<close>.\<close>

fun ancestorChain :: "heap \<Rightarrow> addr \<Rightarrow> addr list \<Rightarrow> addr \<Rightarrow> bool" where
  "ancestorChain h n [] a \<longleftrightarrow> n = a"
| "ancestorChain h n (p # ps) a \<longleftrightarrow> n \<in> set (getChildren h p) \<and> ancestorChain h p ps a"

text \<open>\<open>subtreeOk h d a\<close>: below \<open>a\<close> all pointers are valid and every downward path has
  fewer than \<open>d\<close> edges, so the part of the store below \<open>a\<close> has no cycle.\<close>

fun subtreeOk :: "heap \<Rightarrow> nat \<Rightarrow> addr \<Rightarrow> bool" where
  "subtreeOk h 0 a \<longleftrightarrow> False"
| "subtreeOk h (Suc d) a \<longleftrightarrow>
     a < length (nodes h) \<and> children (nodes h ! a) < length (childLists h)
     \<and> (\<forall>c \<in> set (getChildren h a). subtreeOk h d c)"

text \<open>What a search below \<open>a\<close> for \<open>n\<close> has to return, when it started with \<open>out\<close>.\<close>

definition pathResult ::
    "heap \<Rightarrow> addr \<Rightarrow> bool \<Rightarrow> addr \<Rightarrow> addr list \<Rightarrow> (fault + bool \<times> addr list) option \<Rightarrow> bool" where
  "pathResult h n reach a out r \<longleftrightarrow>
     (\<exists>path. r = Some (Inr (reach, out @ path))
        \<and> (if reach then ancestorChain h n path a else path = []))"


text \<open>A node is fully sealed when its props are sealed and all its children are.\<close>

definition sealedBelow :: "heap \<Rightarrow> addr \<Rightarrow> bool" where
  "sealedBelow h a \<longleftrightarrow>
     propsSealed h ! props (nodes h ! a) \<and> (\<forall>c \<in> set (getChildren h a). getSealed h c)"

text \<open>\<open>nodeOk h a\<close>: \<open>a\<close> is a node of the store, and its pointers to its child vector, to
  its props and to its children lie inside the store.\<close>

definition nodeOk :: "heap \<Rightarrow> addr \<Rightarrow> bool" where
  "nodeOk h a \<longleftrightarrow>
     a < length (nodes h) \<and> children (nodes h ! a) < length (childLists h)
     \<and> props (nodes h ! a) < length (propsSealed h)
     \<and> (\<forall>c \<in> set (getChildren h a). c < length (nodes h))"

text \<open>\<open>treeValid h root\<close>: the pointers of every node of the tree below \<open>root\<close> are valid.
  Nothing is asked of the nodes of the store that are not reachable from \<open>root\<close>.\<close>

definition treeValid :: "heap \<Rightarrow> addr \<Rightarrow> bool" where
  "treeValid h root \<longleftrightarrow> (\<forall>b. descends h root b \<longrightarrow> nodeOk h b)"

text \<open>\<open>treeClosed h root\<close>: every node of the tree below \<open>root\<close> that is sealed is fully
  sealed.\<close>

definition treeClosed :: "heap \<Rightarrow> addr \<Rightarrow> bool" where
  "treeClosed h root \<longleftrightarrow> (\<forall>b. descends h root b \<longrightarrow> getSealed h b \<longrightarrow> sealedBelow h b)"


text \<open>\<open>sealExt h h'\<close>: the store \<open>h'\<close> is \<open>h\<close> with more nodes and props sealed, and with no
  other difference.\<close>

definition sealExt :: "heap \<Rightarrow> heap \<Rightarrow> bool" where
  "sealExt h h' \<longleftrightarrow>
     childLists h' = childLists h \<and> emitterEnabled h' = emitterEnabled h
     \<and> length (nodes h') = length (nodes h)
     \<and> length (propsSealed h') = length (propsSealed h)
     \<and> (\<forall>a < length (nodes h).
           nodes h' ! a = (nodes h ! a)\<lparr>sealed := sealed (nodes h' ! a)\<rparr>
           \<and> (sealed (nodes h ! a) \<longrightarrow> sealed (nodes h' ! a)))
     \<and> (\<forall>p < length (propsSealed h). propsSealed h ! p \<longrightarrow> propsSealed h' ! p)"

text \<open>\<open>sealPost h h'\<close>: moreover, every node sealed in \<open>h'\<close> was sealed in \<open>h\<close> or has
  valid pointers and is fully sealed in \<open>h'\<close>.\<close>

definition sealPost :: "heap \<Rightarrow> heap \<Rightarrow> bool" where
  "sealPost h h' \<longleftrightarrow>
     sealExt h h'
     \<and> (\<forall>b < length (nodes h).
           getSealed h' b \<longrightarrow> getSealed h b \<or> (nodeOk h' b \<and> sealedBelow h' b))"

subsection \<open>Example stores\<close>

text \<open>A node with the given tag, child vector, shared flag and sealed flag; the other
  fields are the same in all examples.\<close>

definition exNode :: "32 word \<Rightarrow> lref \<Rightarrow> bool \<Rightarrow> bool \<Rightarrow> shadow_node" where
  "exNode t l shared sl =
     \<lparr>tag = t, rootTag = 1, props = 0, eventEmitter = Some 0, children = l, localData = None,
      cloneFunction = Some 0, childrenAreShared = shared, revision = 1, sealed = sl\<rparr>"

text \<open>Node 0 is a root with the children 1 and 2, which are leaves sharing the empty
  vector. Node 3 is sealed and shares the child vector of node 0.\<close>

definition exHeap :: heap where
  "exHeap =
     \<lparr>nodes = [exNode 1 0 True False, exNode 2 (Suc 0) True False, exNode 3 (Suc 0) True False,
               exNode 1 0 True True],
      childLists = [[Suc 0, 2], []],
      propsSealed = [False],
      emitterEnabled = [False, False]\<rparr>"

text \<open>Node 0 owns a vector that holds node 1 twice.\<close>

definition dupHeap :: heap where
  "dupHeap =
     \<lparr>nodes = [exNode 1 0 False False, exNode 2 (Suc 0) True False, exNode 3 (Suc 0) True False],
      childLists = [[Suc 0, Suc 0], []],
      propsSealed = [False],
      emitterEnabled = [False]\<rparr>"

text \<open>A chain: node 0 has the child 1, which has the child 2. Node 1 has been sealed by
  \<open>seal\<close> alone; its child and its props have not.\<close>

definition chainHeap :: heap where
  "chainHeap =
     \<lparr>nodes = [exNode 1 0 True False, exNode 2 (Suc 0) True True, exNode 3 2 True False],
      childLists = [[Suc 0], [2], []],
      propsSealed = [False],
      emitterEnabled = [False]\<rparr>"

text \<open>The same chain with nothing sealed.\<close>

definition freshChain :: heap where
  "freshChain =
     \<lparr>nodes = [exNode 1 0 True False, exNode 2 (Suc 0) True False, exNode 3 2 True False],
      childLists = [[Suc 0], [2], []],
      propsSealed = [False],
      emitterEnabled = [False]\<rparr>"

subsection \<open>Sealing\<close>

text \<open>
  \<open>ShadowNode::sealRecursive\<close>, with \<open>sealChildren\<close> for its loop over the children. The
  loop passes the store on from one child to the next, so the recursion is nested.
\<close>

function sealRecursive :: "heap \<Rightarrow> addr \<Rightarrow> unit result"
  and sealChildren :: "heap \<Rightarrow> addr list \<Rightarrow> unit result" where
  "sealRecursive h this =
     (if \<not> this < length (nodes h) then (Inl NullDeref, h)
      else if getSealed h this then (Inr (), h)
      else
        let h1 = seal h this;
            p = props (nodes h1 ! this)
        in if \<not> p < length (propsSealed h1) then (Inl NullDeref, h1)
           else
             let h2 = Props_seal h1 p;
                 l = children (nodes h2 ! this)
             in if \<not> l < length (childLists h2) then (Inl NullDeref, h2)
                else sealChildren h2 (childLists h2 ! l))"
| "sealChildren h [] = (Inr (), h)"
| "sealChildren h (child # rest) =
     (case sealRecursive h child of
        (Inl e, h') \<Rightarrow> (Inl e, h')
      | (Inr u, h') \<Rightarrow> sealChildren h' rest)"
  by pat_completeness auto

text \<open>The number of unsealed nodes: it drops whenever \<open>sealRecursive\<close> goes past its
  first test, which is why the recursion ends even on a store with a cycle.\<close>

definition unsealedCount :: "heap \<Rightarrow> nat" where
  "unsealedCount h = length (filter (\<lambda>n. \<not> sealed n) (nodes h))"

lemma filter_update_less:
  "i < length xs \<Longrightarrow> P (xs ! i) \<Longrightarrow> \<not> P y \<Longrightarrow>
   length (filter P (xs[i := y])) < length (filter P xs)"
proof (induction xs arbitrary: i)
  case Nil
  then show ?case by simp
next
  case (Cons x xs)
  show ?case
  proof (cases i)
    case 0
    with Cons.prems show ?thesis by (simp add: less_Suc_eq_le)
  next
    case (Suc j)
    with Cons.prems Cons.IH [of j] show ?thesis by simp
  qed
qed

lemma unsealedCount_seal:
  "this < length (nodes h) \<Longrightarrow> \<not> getSealed h this \<Longrightarrow> unsealedCount (seal h this) < unsealedCount h"
  by (simp add: unsealedCount_def seal_def getSealed_def filter_update_less)

lemma unsealedCount_Props_seal: "unsealedCount (Props_seal h p) = unsealedCount h"
  by (simp add: unsealedCount_def Props_seal_def)

lemma sealRecursive_count_dom:
  "sealRecursive_sealChildren_dom (Inl (h, this)) \<Longrightarrow>
     unsealedCount (snd (sealRecursive h this)) \<le> unsealedCount h"
  "sealRecursive_sealChildren_dom (Inr (h, cs)) \<Longrightarrow>
     unsealedCount (snd (sealChildren h cs)) \<le> unsealedCount h"
proof (induction h this and h cs rule: sealRecursive_sealChildren.pinduct)
  case (1 h this)
  show ?case
  proof (cases "this < length (nodes h) \<and> \<not> getSealed h this")
    case False
    with "1.hyps" show ?thesis by (auto simp: sealRecursive.psimps)
  next
    case True
    then have less: "unsealedCount (seal h this) < unsealedCount h"
      by (simp add: unsealedCount_seal)
    define h1 where "h1 = seal h this"
    define p where "p = props (nodes h1 ! this)"
    define h2 where "h2 = Props_seal h1 p"
    define l where "l = children (nodes h2 ! this)"
    have eq: "sealRecursive h this =
        (if \<not> p < length (propsSealed h1) then (Inl NullDeref, h1)
         else if \<not> l < length (childLists h2) then (Inl NullDeref, h2)
         else sealChildren h2 (childLists h2 ! l))"
      using True "1.hyps" by (simp add: sealRecursive.psimps Let_def h1_def p_def h2_def l_def)
    have c2: "unsealedCount h2 = unsealedCount h1"
      by (simp add: h2_def unsealedCount_Props_seal)
    show ?thesis
    proof (cases "p < length (propsSealed h1) \<and> l < length (childLists h2)")
      case False
      with eq less c2 show ?thesis by (auto simp: h1_def)
    next
      case ok: True
      have "unsealedCount (snd (sealChildren h2 (childLists h2 ! l))) \<le> unsealedCount h2"
        using True ok by (intro "1.IH" [OF _ _ h1_def p_def _ h2_def l_def]) auto
      with eq ok less c2 show ?thesis by (simp add: h1_def)
    qed
  qed
next
  case (2 h)
  then show ?case by (simp add: sealChildren.psimps)
next
  case (3 h child rest)
  obtain r h' where r: "sealRecursive h child = (r, h')" by (cases "sealRecursive h child")
  show ?case
  proof (cases r)
    case (Inl e)
    with r "3.hyps" "3.IH"(1) show ?thesis by (simp add: sealChildren.psimps)
  next
    case (Inr u)
    with r "3.hyps" "3.IH"(1) "3.IH"(2) [of r h' u] show ?thesis
      by (simp add: sealChildren.psimps)
  qed
qed

termination sealRecursive
proof (relation "(\<lambda>x. case x of Inl (h, a) \<Rightarrow> unsealedCount h | Inr (h, cs) \<Rightarrow> unsealedCount h)
     <*mlex*> (\<lambda>x. case x of Inl (h, a) \<Rightarrow> 0 | Inr (h, cs) \<Rightarrow> Suc (length cs)) <*mlex*> {}", goal_cases)
  case 1
  then show ?case by (simp add: wf_mlex)
next
  case (2 h this h1 p h2 l)
  then show ?case
    by (simp add: mlex_prod_def unsealedCount_Props_seal unsealedCount_seal)
next
  case (3 h child rest)
  then show ?case by (simp add: mlex_prod_def)
next
  case (4 h child rest x y b)
  have "unsealedCount (snd (sealRecursive h child)) \<le> unsealedCount h"
    using 4 by (intro sealRecursive_count_dom(1)) auto
  with 4 have "unsealedCount y \<le> unsealedCount h"
    by (metis snd_conv)
  then show ?case by (auto simp: mlex_prod_def)
qed

declare sealRecursive.simps [simp del]

section \<open>Auxiliary facts\<close>




lemma ensureUnsealed_None:
  "this < length (nodes h) \<Longrightarrow> \<not> getSealed h this \<Longrightarrow> ensureUnsealed h this = None"
  by (simp add: ensureUnsealed_def)

lemma cloneChildrenIfShared_shared:
  "childrenAreShared (nodes h ! this) \<Longrightarrow>
   cloneChildrenIfShared h this =
     h\<lparr>nodes := (nodes h)[this := (nodes h ! this)
           \<lparr>childrenAreShared := False, children := length (childLists h)\<rparr>],
       childLists := childLists h @ [getChildren h this]\<rparr>"
  by (simp add: cloneChildrenIfShared_def getChildren_def)

lemma cloneChildrenIfShared_owned:
  "\<not> childrenAreShared (nodes h ! this) \<Longrightarrow> cloneChildrenIfShared h this = h"
  by (simp add: cloneChildrenIfShared_def)

lemma appendChild_shared:
  assumes "this < length (nodes h)" "\<not> getSealed h this" "childrenAreShared (nodes h ! this)"
  shows "appendChild h this child =
     (Inr (), h\<lparr>nodes := (nodes h)[this := (nodes h ! this)
           \<lparr>childrenAreShared := False, children := length (childLists h)\<rparr>],
       childLists := childLists h @ [getChildren h this @ [child]]\<rparr>)"
  using assms
  by (simp add: appendChild_def ensureUnsealed_None cloneChildrenIfShared_shared Let_def)

lemma appendChild_owned:
  assumes "this < length (nodes h)" "\<not> getSealed h this" "\<not> childrenAreShared (nodes h ! this)"
    "children (nodes h ! this) < length (childLists h)"
  shows "appendChild h this child =
     (Inr (), h\<lparr>childLists := (childLists h)
        [children (nodes h ! this) := getChildren h this @ [child]]\<rparr>)"
  using assms
  by (simp add: appendChild_def ensureUnsealed_None cloneChildrenIfShared_owned Let_def
      getChildren_def)

lemmas ex_defs =
  exHeap_def dupHeap_def chainHeap_def freshChain_def exNode_def getChildren_def getSealed_def
  handlesValid_def

section \<open>Cloning\<close>

text \<open>
  Claim C2, as amended. The clone's event emitter is the fragment's event emitter when the
  fragment carries one, and the source node's event emitter otherwise.
\<close>

theorem clone_eventEmitter:
  assumes "source < length (nodes h)"
  shows "fst (ShadowNode_clone h source frag) = Inr (length (nodes h))
     \<and> eventEmitter (nodes (snd (ShadowNode_clone h source frag)) ! length (nodes h)) =
       (case fragEventEmitter frag of
          Some e \<Rightarrow> Some e
        | None \<Rightarrow> eventEmitter (nodes h ! source))"
  using assms by (simp add: ShadowNode_clone_def cloneNode_def elvisPtr_def)

theorem clone_eventEmitter_witness:
  "0 < length (nodes exHeap)
   \<and> fst (ShadowNode_clone exHeap 0 (emptyFragment\<lparr>fragEventEmitter := Some (Suc 0)\<rparr>)) = Inr (length (nodes exHeap))
   \<and> eventEmitter (nodes (snd (ShadowNode_clone exHeap 0
         (emptyFragment\<lparr>fragEventEmitter := Some (Suc 0)\<rparr>))) ! length (nodes exHeap)) = Some (Suc 0)
   \<and> eventEmitter (nodes (snd (ShadowNode_clone exHeap 0 emptyFragment)) ! length (nodes exHeap)) = Some 0"
  using clone_eventEmitter [of 0 exHeap "emptyFragment\<lparr>fragEventEmitter := Some (Suc 0)\<rparr>"]
    clone_eventEmitter [of 0 exHeap emptyFragment]
  by (simp add: ex_defs emptyFragment_def)

text \<open>Claim C2 as stated fails: a fragment that carries the event emitter 1 overrides the
  source node's event emitter 0.\<close>

theorem clone_eventEmitter_counterexample:
  "eventEmitter (nodes (snd (ShadowNode_clone exHeap 0
       (emptyFragment\<lparr>fragEventEmitter := Some (Suc 0)\<rparr>))) ! length (nodes exHeap))
   \<noteq> eventEmitter (nodes exHeap ! 0)"
  by (simp add: ex_defs emptyFragment_def ShadowNode_clone_def cloneNode_def elvisPtr_def)

text \<open>
  Claim C5. Cloning a node with the empty fragment allocates a new node whose revision is
  the source's plus one (in the arithmetic of \<open>int\<close>) and whose tag, root tag, props,
  event emitter, children handle and local data are the source's. Every node that existed
  before, the source among them, is still at its address with the same contents, and the
  child vectors, the props and the event emitters are untouched.
\<close>

theorem clone_emptyFragment:
  assumes "source < length (nodes h)"
  shows "fst (ShadowNode_clone h source emptyFragment) = Inr (length (nodes h))
     \<and> revision (nodes (snd (ShadowNode_clone h source emptyFragment)) ! length (nodes h))
         = revision (nodes h ! source) + 1
     \<and> nodes (snd (ShadowNode_clone h source emptyFragment)) ! length (nodes h)
         = (nodes h ! source)\<lparr>revision := revision (nodes h ! source) + 1,
              childrenAreShared := True, sealed := False\<rparr>
     \<and> take (length (nodes h)) (nodes (snd (ShadowNode_clone h source emptyFragment))) = nodes h
     \<and> nodes (snd (ShadowNode_clone h source emptyFragment)) ! source = nodes h ! source
     \<and> childLists (snd (ShadowNode_clone h source emptyFragment)) = childLists h
     \<and> propsSealed (snd (ShadowNode_clone h source emptyFragment)) = propsSealed h
     \<and> emitterEnabled (snd (ShadowNode_clone h source emptyFragment)) = emitterEnabled h"
  using assms
  by (simp add: ShadowNode_clone_def cloneNode_def emptyFragment_def elvisInt_def
      elvisPtr_def elvisRef_def nth_append)

theorem clone_emptyFragment_witness:
  "0 < length (nodes exHeap)
   \<and> fst (ShadowNode_clone exHeap 0 emptyFragment) = Inr (length (nodes exHeap))
   \<and> revision (nodes (snd (ShadowNode_clone exHeap 0 emptyFragment)) ! length (nodes exHeap)) = 2
   \<and> children (nodes (snd (ShadowNode_clone exHeap 0 emptyFragment)) ! length (nodes exHeap)) = 0
   \<and> nodes (snd (ShadowNode_clone exHeap 0 emptyFragment)) ! 0 = nodes exHeap ! 0"
  using clone_emptyFragment [of 0 exHeap]
  by (simp add: ex_defs)

section \<open>Mounting\<close>

text \<open>
  Claim C9. \<open>setMounted\<close> on a node with an event emitter, sealed or not, returns without
  a fault and changes only the state of that event emitter: the nodes (their tags, root
  tags, props, children handles, local data, revisions and sealed flags), the child vectors
  and the props are the same as before.
\<close>

theorem setMounted_frame:
  assumes "this < length (nodes h)" and "eventEmitter (nodes h ! this) = Some e"
    and "e < length (emitterEnabled h)"
  shows "setMounted h this mounted = (Inr (), h\<lparr>emitterEnabled := (emitterEnabled h)[e := mounted]\<rparr>)
     \<and> nodes (snd (setMounted h this mounted)) = nodes h
     \<and> getSealed (snd (setMounted h this mounted)) this = getSealed h this
     \<and> childLists (snd (setMounted h this mounted)) = childLists h
     \<and> propsSealed (snd (setMounted h this mounted)) = propsSealed h
     \<and> emitterEnabled (snd (setMounted h this mounted)) ! e = mounted"
  using assms by (simp add: setMounted_def setEnabled_def getSealed_def)

theorem setMounted_frame_witness:
  "3 < length (nodes exHeap) \<and> eventEmitter (nodes exHeap ! 3) = Some 0
   \<and> 0 < length (emitterEnabled exHeap) \<and> getSealed exHeap 3
   \<and> fst (setMounted exHeap 3 True) = Inr ()
   \<and> nodes (snd (setMounted exHeap 3 True)) = nodes exHeap
   \<and> emitterEnabled (snd (setMounted exHeap 3 True)) = [True, False]"
  using setMounted_frame [of 3 exHeap 0 True]
  by (simp add: ex_defs)

section \<open>Copy on write\<close>

text \<open>
  Claim C6. On an unsealed node whose children are marked as shared, \<open>appendChild\<close>
  copies the child vector and appends to the copy only: every vector that existed before
  is unchanged, so every other node has the same children handle and sees the same
  children sequence as before. Afterwards the node's handle is the new vector, which no
  other node holds, and the flag is cleared; a second \<open>appendChild\<close> on the node appends
  to that same vector and allocates nothing.
\<close>

theorem appendChild_copy_on_write:
  assumes "this < length (nodes h)" and "\<not> getSealed h this"
    and "childrenAreShared (nodes h ! this)"
    and "handlesValid h"
  shows "let h1 = snd (appendChild h this child); h2 = snd (appendChild h1 this child2) in
       fst (appendChild h this child) = Inr ()
     \<and> getChildren h1 this = getChildren h this @ [child]
     \<and> take (length (childLists h)) (childLists h1) = childLists h
     \<and> (\<forall>m < length (nodes h). m \<noteq> this \<longrightarrow>
           nodes h1 ! m = nodes h ! m \<and> getChildren h1 m = getChildren h m)
     \<and> (\<forall>m < length (nodes h). m \<noteq> this \<longrightarrow>
           children (nodes h1 ! m) \<noteq> children (nodes h1 ! this))
     \<and> \<not> childrenAreShared (nodes h1 ! this)
     \<and> fst (appendChild h1 this child2) = Inr ()
     \<and> children (nodes h2 ! this) = children (nodes h1 ! this)
     \<and> length (childLists h2) = length (childLists h1)
     \<and> getChildren h2 this = getChildren h this @ [child, child2]"
proof -
  define h1 where "h1 = h\<lparr>nodes := (nodes h)[this := (nodes h ! this)
           \<lparr>childrenAreShared := False, children := length (childLists h)\<rparr>],
       childLists := childLists h @ [getChildren h this @ [child]]\<rparr>"
  from assms(4) have valid: "\<forall>m < length (nodes h). children (nodes h ! m) < length (childLists h)"
    by (simp add: handlesValid_def)
  then have other: "\<forall>m < length (nodes h). children (nodes h ! m) \<noteq> length (childLists h)"
    by (auto simp: nat_neq_iff)
  have first: "appendChild h this child = (Inr (), h1)"
    using assms(1-3) by (simp add: appendChild_shared h1_def)
  have this1: "this < length (nodes h1)" "\<not> getSealed h1 this"
    "\<not> childrenAreShared (nodes h1 ! this)" "children (nodes h1 ! this) = length (childLists h)"
    "children (nodes h1 ! this) < length (childLists h1)"
    "getChildren h1 this = getChildren h this @ [child]"
    using assms(1,2) by (simp_all add: h1_def getSealed_def getChildren_def)
  have second: "appendChild h1 this child2 =
      (Inr (), h1\<lparr>childLists := (childLists h1)
         [children (nodes h1 ! this) := getChildren h1 this @ [child2]]\<rparr>)"
    using this1 by (intro appendChild_owned)
  have frame: "\<forall>m < length (nodes h). m \<noteq> this \<longrightarrow>
      nodes h1 ! m = nodes h ! m \<and> getChildren h1 m = getChildren h m"
    using valid by (simp add: h1_def getChildren_def nth_append)
  have excl: "\<forall>m < length (nodes h). m \<noteq> this \<longrightarrow>
      children (nodes h1 ! m) \<noteq> children (nodes h1 ! this)"
    using other frame this1(4) by simp
  have old: "take (length (childLists h)) (childLists h1) = childLists h"
    by (simp add: h1_def)
  have after: "getChildren (h1\<lparr>childLists := (childLists h1)
         [children (nodes h1 ! this) := getChildren h1 this @ [child2]]\<rparr>) this
       = getChildren h this @ [child, child2]"
    using this1 by (simp add: getChildren_def)
  show ?thesis
    using this1 frame excl old after by (simp add: Let_def first second)
qed

theorem appendChild_copy_on_write_witness:
  "0 < length (nodes exHeap) \<and> \<not> getSealed exHeap 0 \<and> childrenAreShared (nodes exHeap ! 0)
   \<and> handlesValid exHeap
   \<and> getChildren (snd (appendChild exHeap 0 2)) 0 = [Suc 0, 2, 2]
   \<and> getChildren (snd (appendChild exHeap 0 2)) 3 = [Suc 0, 2]
   \<and> getChildren exHeap 3 = [Suc 0, 2]
   \<and> length (childLists (snd (appendChild (snd (appendChild exHeap 0 2)) 0 (Suc 0))))
       = length (childLists (snd (appendChild exHeap 0 2)))"
  using appendChild_copy_on_write [of 0 exHeap 2 "Suc 0"]
  by (simp add: ex_defs appendChild_def ensureUnsealed_def cloneChildrenIfShared_def Let_def)

section \<open>Ancestor path\<close>

lemma descends_unfold:
  "descends h a n \<longleftrightarrow> n = a \<or> (\<exists>c \<in> set (getChildren h a). descends h c n)"
proof
  assume "descends h a n"
  then show "n = a \<or> (\<exists>c \<in> set (getChildren h a). descends h c n)"
    by (cases rule: descends.cases) auto
next
  assume "n = a \<or> (\<exists>c \<in> set (getChildren h a). descends h c n)"
  then show "descends h a n"
    by (auto intro: descends.intros)
qed

lemma ancestorChain_snoc:
  "ancestorChain h n ps c \<Longrightarrow> c \<in> set (getChildren h a) \<Longrightarrow> ancestorChain h n (ps @ [a]) a"
  by (induction ps arbitrary: n) auto

lemma ancestorChain_ends:
  "ancestorChain h n ps a \<Longrightarrow> ps \<noteq> [] \<Longrightarrow> last ps = a \<and> n \<in> set (getChildren h (hd ps))"
  by (induction ps arbitrary: n) auto

lemma ancestorLoop_result:
  assumes step: "\<And>c out. c \<in> set cs \<Longrightarrow>
      pathResult h n (descends h c n) c out (constructAncestorPath k h n c out)"
    and sub: "set cs \<subseteq> set (getChildren h a)"
  shows "pathResult h n (\<exists>c \<in> set cs. descends h c n) a out (ancestorLoop k h n a cs out)"
  using step sub
proof (induction cs arbitrary: out)
  case Nil
  then show ?case by (simp add: pathResult_def)
next
  case (Cons c cs)
  from Cons.prems(1) [of c out]
  obtain path where r: "constructAncestorPath k h n c out = Some (Inr (descends h c n, out @ path))"
    and p: "if descends h c n then ancestorChain h n path c else path = []"
    by (auto simp: pathResult_def)
  define found where "found = descends h c n"
  note f = found_def
  note r = r [folded found_def] and p = p [folded found_def]
  show ?case
  proof (cases found)
    case True
    with p Cons.prems(2) have "ancestorChain h n (path @ [a]) a"
      by (auto intro: ancestorChain_snoc)
    with True r f show ?thesis by (auto simp: pathResult_def)
  next
    case False
    with p have "path = []" by simp
    moreover have "pathResult h n (\<exists>c \<in> set cs. descends h c n) a out (ancestorLoop k h n a cs out)"
      using Cons.prems by (intro Cons.IH) auto
    ultimately show ?thesis using False r f by (auto simp: pathResult_def)
  qed
qed

lemma constructAncestorPath_result:
  "subtreeOk h d a \<Longrightarrow> d \<le> k \<Longrightarrow>
   pathResult h n (descends h a n) a out (constructAncestorPath k h n a out)"
proof (induction d arbitrary: k a out)
  case 0
  then show ?case by simp
next
  case (Suc d)
  from Suc.prems(2) obtain k' where k: "k = Suc k'" and k': "d \<le> k'"
    by (cases k) auto
  show ?case
  proof (cases "n = a")
    case True
    then show ?thesis by (simp add: k pathResult_def descends.here)
  next
    case False
    from Suc.prems(1) have valid: "a < length (nodes h)"
      "children (nodes h ! a) < length (childLists h)"
      and below: "\<forall>c \<in> set (getChildren h a). subtreeOk h d c"
      by simp_all
    have "pathResult h n (\<exists>c \<in> set (getChildren h a). descends h c n) a out
        (ancestorLoop k' h n a (getChildren h a) out)"
      using below k' by (intro ancestorLoop_result Suc.IH) auto
    moreover have "(\<exists>c \<in> set (getChildren h a). descends h c n) = descends h a n"
      using False descends_unfold [of h a n] by simp
    ultimately show ?thesis
      using False valid by (simp add: k getChildren_def)
  qed
qed

text \<open>
  Claim C7. Let the part of the store below the presumed ancestor be free of cycles and
  of invalid pointers, with no downward path of \<open>d\<close> edges or more. Then with a call depth
  of \<open>d\<close> or more \<open>constructAncestorPath\<close> returns, without a fault. It returns true
  exactly when the node is reachable from the ancestor through children. In that case the
  nodes appended to the output form a chain that starts with a parent of the node, goes
  on from each node to a parent of it, and ends with the ancestor itself; the chain is
  empty only if the node is the ancestor. When the node is not reachable the result is
  false and nothing is appended.
\<close>

theorem constructAncestorPath_correct:
  assumes "subtreeOk h d ancestor" and "d \<le> fuel"
  shows "\<exists>found path.
       constructAncestorPath fuel h this ancestor out = Some (Inr (found, out @ path))
     \<and> (found \<longleftrightarrow> descends h ancestor this)
     \<and> (found \<longrightarrow> ancestorChain h this path ancestor)
     \<and> (found \<and> this \<noteq> ancestor \<longrightarrow>
           path \<noteq> [] \<and> this \<in> set (getChildren h (hd path)) \<and> last path = ancestor)
     \<and> (\<not> found \<longrightarrow> path = [])"
proof -
  from constructAncestorPath_result [OF assms, of this out]
  obtain path where r: "constructAncestorPath fuel h this ancestor out
      = Some (Inr (descends h ancestor this, out @ path))"
    and p: "if descends h ancestor this then ancestorChain h this path ancestor else path = []"
    by (auto simp: pathResult_def)
  define found where "found = descends h ancestor this"
  note f = found_def
  note r = r [folded found_def] and p = p [folded found_def]
  have "path \<noteq> [] \<and> this \<in> set (getChildren h (hd path)) \<and> last path = ancestor"
    if "found" "this \<noteq> ancestor"
  proof -
    from that p have c: "ancestorChain h this path ancestor" by simp
    with that(2) have "path \<noteq> []" by (cases path) auto
    with c show ?thesis using ancestorChain_ends by blast
  qed
  with r f p show ?thesis by (intro exI [of _ found] exI [of _ path]) auto
qed

theorem constructAncestorPath_correct_witness:
  "subtreeOk freshChain (Suc (Suc (Suc 0))) 0
   \<and> constructAncestorPath (Suc (Suc (Suc 0))) freshChain 2 0 [] = Some (Inr (True, [Suc 0, 0]))
   \<and> constructAncestorPath (Suc (Suc (Suc 0))) freshChain 0 (Suc 0) [] = Some (Inr (False, []))"
  using constructAncestorPath_correct [of freshChain "Suc (Suc (Suc 0))" 0 "Suc (Suc (Suc 0))" 2 "[]"]
  by (simp add: ex_defs)

section \<open>The loop of std::replace\<close>

lemma nth_update_cases:
  "j < length xs \<Longrightarrow> xs[i := x] ! j = (if i = j then x else xs ! j)"
  by (cases "i = j") simp_all













section \<open>Replacing a child\<close>











text \<open>A reference into the node's own vector cannot be read when the call frees that
  vector: node 0 of \<open>freshChain\<close> is the only holder of its vector, which is marked as
  shared.\<close>

lemma replaceChild_freed_reference:
  "replaceChild freshChain 0 (Element 0 0) (Held 2) (- 1) = (Inl NullDeref, freshChain)"
  by (simp add: ex_defs replaceChild_def ensureUnsealed_def refReadable_def holders_def
      refLive_def)


section \<open>Mutation of a sealed node\<close>

text \<open>
  Claim C4. On a sealed node each of \<open>appendChild\<close>, \<open>replaceChild\<close> and \<open>setLocalData\<close>
  ends in the fault raised by \<open>ensureUnsealed\<close>, and the store at that point is the store
  the call started with: nothing has been changed.
\<close>

theorem sealed_mutators_fault:
  assumes "this < length (nodes h)" and "getSealed h this"
  shows "appendChild h this child = (Inl SealedMutation, h)
     \<and> replaceChild h this oldChild newChild hint = (Inl SealedMutation, h)
     \<and> setLocalData h this ld = (Inl SealedMutation, h)"
  using assms
  by (simp add: appendChild_def replaceChild_def setLocalData_def ensureUnsealed_def)

theorem sealed_mutators_fault_witness:
  "3 < length (nodes exHeap) \<and> getSealed exHeap 3
   \<and> appendChild exHeap 3 2 = (Inl SealedMutation, exHeap)
   \<and> replaceChild exHeap 3 (Held (Suc 0)) (Held 2) 0 = (Inl SealedMutation, exHeap)
   \<and> replaceChild exHeap 3 (Element 0 0) (Held 2) 0 = (Inl SealedMutation, exHeap)
   \<and> setLocalData exHeap 3 (Some 0) = (Inl SealedMutation, exHeap)"
  using sealed_mutators_fault [of 3 exHeap 2 "Held (Suc 0)" "Held 2" 0 "Some 0"]
    sealed_mutators_fault [of 3 exHeap 2 "Element 0 0" "Held 2" 0 "Some 0"]
  by (simp add: ex_defs)

section \<open>Misses and copies of replaceChild\<close>






section \<open>Invariants of sealing\<close>

lemma sealExt_refl: "sealExt h h"
  by (simp add: sealExt_def)

lemma sealExt_fields:
  assumes "sealExt h h'" and "a < length (nodes h)"
  shows "children (nodes h' ! a) = children (nodes h ! a)"
    and "props (nodes h' ! a) = props (nodes h ! a)"
    and "getChildren h' a = getChildren h a"
    and "getSealed h a \<Longrightarrow> getSealed h' a"
proof -
  from assms have eq: "nodes h' ! a = (nodes h ! a)\<lparr>sealed := sealed (nodes h' ! a)\<rparr>"
    and l: "childLists h' = childLists h"
    and m: "sealed (nodes h ! a) \<longrightarrow> sealed (nodes h' ! a)"
    by (simp_all add: sealExt_def)
  show c: "children (nodes h' ! a) = children (nodes h ! a)"
    by (subst eq) simp
  show "props (nodes h' ! a) = props (nodes h ! a)"
    by (subst eq) simp
  show "getChildren h' a = getChildren h a"
    by (simp add: getChildren_def c l)
  show "getSealed h a \<Longrightarrow> getSealed h' a"
    using m by (simp add: getSealed_def)
qed

lemma sealExt_trans:
  assumes "sealExt h h1" and "sealExt h1 h2"
  shows "sealExt h h2"
proof -
  have "nodes h2 ! a = (nodes h ! a)\<lparr>sealed := sealed (nodes h2 ! a)\<rparr>
      \<and> (sealed (nodes h ! a) \<longrightarrow> sealed (nodes h2 ! a))" if "a < length (nodes h)" for a
  proof -
    from that assms have 1: "nodes h1 ! a = (nodes h ! a)\<lparr>sealed := sealed (nodes h1 ! a)\<rparr>"
      and 2: "nodes h2 ! a = (nodes h1 ! a)\<lparr>sealed := sealed (nodes h2 ! a)\<rparr>"
      and 3: "sealed (nodes h ! a) \<longrightarrow> sealed (nodes h1 ! a)"
      and 4: "sealed (nodes h1 ! a) \<longrightarrow> sealed (nodes h2 ! a)"
      by (simp_all add: sealExt_def)
    have "nodes h2 ! a = (nodes h ! a)\<lparr>sealed := sealed (nodes h2 ! a)\<rparr>"
      by (subst 2, subst 1) simp
    with 3 4 show ?thesis by simp
  qed
  with assms show ?thesis by (simp add: sealExt_def)
qed

lemma sealExt_seal: "sealExt h (seal h this)"
  by (simp add: sealExt_def seal_def nth_update_cases)

lemma sealExt_Props_seal: "sealExt h (Props_seal h p)"
  by (simp add: sealExt_def Props_seal_def nth_update_cases)

text \<open>Whatever the store, \<open>sealRecursive\<close> only seals.\<close>

lemma sealExt_sealRecursive:
  "sealExt h (snd (sealRecursive h this))"
  "sealExt h (snd (sealChildren h cs))"
proof (induction h this and h cs rule: sealRecursive_sealChildren.induct)
  case (1 h this)
  define h1 where "h1 = seal h this"
  define p where "p = props (nodes h1 ! this)"
  define h2 where "h2 = Props_seal h1 p"
  define l where "l = children (nodes h2 ! this)"
  have e1: "sealExt h h1" by (simp add: h1_def sealExt_seal)
  have "sealExt h1 h2" by (simp add: h2_def sealExt_Props_seal)
  with e1 have e2: "sealExt h h2" by (rule sealExt_trans)
  have eq: "sealRecursive h this =
     (if \<not> this < length (nodes h) then (Inl NullDeref, h)
      else if getSealed h this then (Inr (), h)
      else if \<not> p < length (propsSealed h1) then (Inl NullDeref, h1)
      else if \<not> l < length (childLists h2) then (Inl NullDeref, h2)
      else sealChildren h2 (childLists h2 ! l))"
    by (simp add: sealRecursive.simps [of h this] Let_def h1_def [symmetric] p_def [symmetric]
        h2_def [symmetric] l_def [symmetric])
  show ?case
  proof (cases "this < length (nodes h) \<and> \<not> getSealed h this
      \<and> p < length (propsSealed h1) \<and> l < length (childLists h2)")
    case True
    then have "sealExt h2 (snd (sealChildren h2 (childLists h2 ! l)))"
      using "1.IH" [OF _ _ h1_def p_def _ h2_def l_def] by simp
    with e2 have "sealExt h (snd (sealChildren h2 (childLists h2 ! l)))"
      by (rule sealExt_trans)
    with True show ?thesis by (simp add: eq)
  next
    case False
    with e1 e2 show ?thesis by (auto simp: eq sealExt_refl)
  qed
next
  case (2 h)
  show ?case by (simp add: sealExt_refl)
next
  case (3 h child rest)
  obtain r1 h1 where first: "sealRecursive h child = (r1, h1)"
    by (cases "sealRecursive h child")
  from "3.IH"(1) first have e1: "sealExt h h1" by simp
  show ?case
  proof (cases r1)
    case (Inl e)
    with first e1 show ?thesis by simp
  next
    case (Inr u)
    from "3.IH"(2) [OF first [symmetric] Inr] have "sealExt h1 (snd (sealChildren h1 rest))" .
    with e1 have "sealExt h (snd (sealChildren h1 rest))" by (rule sealExt_trans)
    with first Inr show ?thesis by simp
  qed
qed

lemma sealRecursive_seals_self:
  assumes "this < length (nodes h)"
  shows "getSealed (snd (sealRecursive h this)) this"
proof (cases "getSealed h this")
  case True
  with assms show ?thesis by (simp add: sealRecursive.simps [of h this])
next
  case False
  define h1 where "h1 = seal h this"
  define p where "p = props (nodes h1 ! this)"
  define h2 where "h2 = Props_seal h1 p"
  define l where "l = children (nodes h2 ! this)"
  have e12: "sealExt h1 h2" by (simp add: h2_def sealExt_Props_seal)
  have "sealExt h2 (snd (sealChildren h2 (childLists h2 ! l)))"
    by (rule sealExt_sealRecursive(2))
  with e12 have e13: "sealExt h1 (snd (sealChildren h2 (childLists h2 ! l)))"
    by (rule sealExt_trans)
  have eq: "sealRecursive h this =
     (if \<not> p < length (propsSealed h1) then (Inl NullDeref, h1)
      else if \<not> l < length (childLists h2) then (Inl NullDeref, h2)
      else sealChildren h2 (childLists h2 ! l))"
    using assms False
    by (simp add: sealRecursive.simps [of h this] Let_def h1_def [symmetric] p_def [symmetric]
        h2_def [symmetric] l_def [symmetric])
  have ext: "sealExt h1 (snd (sealRecursive h this))"
    using e12 e13 by (simp add: eq sealExt_refl)
  have v1: "this < length (nodes h1)" using assms by (simp add: h1_def seal_def)
  have "getSealed h1 this" using assms by (simp add: h1_def seal_def getSealed_def)
  then show ?thesis by (rule sealExt_fields(4) [OF ext v1])
qed

lemma nodeOk_sealExt:
  assumes "nodeOk h a" and "sealExt h h'"
  shows "nodeOk h' a"
proof -
  from assms(1) have a: "a < length (nodes h)" by (simp add: nodeOk_def)
  from assms sealExt_fields(1-3) [OF assms(2) a] show ?thesis
    by (simp add: nodeOk_def sealExt_def)
qed

lemma sealedBelow_sealExt:
  assumes "nodeOk h a" and "sealExt h h'" and "sealedBelow h a"
  shows "sealedBelow h' a"
proof -
  from assms(1) have a: "a < length (nodes h)"
    and pv: "props (nodes h ! a) < length (propsSealed h)"
    and cv: "\<forall>c \<in> set (getChildren h a). c < length (nodes h)"
    by (simp_all add: nodeOk_def)
  from assms(3) have p: "propsSealed h ! props (nodes h ! a)"
    and c: "\<forall>c \<in> set (getChildren h a). getSealed h c"
    by (simp_all add: sealedBelow_def)
  from pv p assms(2) have "propsSealed h' ! props (nodes h ! a)" by (simp add: sealExt_def)
  then have "propsSealed h' ! props (nodes h' ! a)"
    by (simp add: sealExt_fields(2) [OF assms(2) a])
  moreover have "getSealed h' c" if "c \<in> set (getChildren h' a)" for c
  proof -
    from that have m: "c \<in> set (getChildren h a)"
      by (simp add: sealExt_fields(3) [OF assms(2) a])
    with cv have "c < length (nodes h)" by simp
    with c m show ?thesis using sealExt_fields(4) [OF assms(2)] by simp
  qed
  ultimately show ?thesis by (simp add: sealedBelow_def)
qed

lemma descends_child:
  "descends h a b \<Longrightarrow> c \<in> set (getChildren h b) \<Longrightarrow> descends h a c"
proof (induction rule: descends.induct)
  case (here a)
  from here descends.here [of h c] show ?case by (rule descends.below)
next
  case (below c' a n)
  from below.prems have "descends h c' c" by (rule below.IH)
  with below.hyps(1) show ?case by (rule descends.below)
qed

lemma treeValid_root: "treeValid h a \<Longrightarrow> nodeOk h a"
  by (simp add: treeValid_def descends.here)

lemma treeValid_child:
  assumes "treeValid h a" and "c \<in> set (getChildren h a)"
  shows "treeValid h c"
proof -
  have "nodeOk h b" if "descends h c b" for b
  proof -
    from assms(2) that have "descends h a b" by (rule descends.below)
    with assms(1) show ?thesis by (simp add: treeValid_def)
  qed
  then show ?thesis by (simp add: treeValid_def)
qed

lemma descends_sealExt:
  assumes "sealExt h h'"
  shows "descends h a b \<Longrightarrow> treeValid h a \<Longrightarrow> descends h' a b"
proof (induction rule: descends.induct)
  case (here a)
  show ?case by (rule descends.here)
next
  case (below c a n)
  from treeValid_root [OF below.prems] have "a < length (nodes h)"
    by (simp add: nodeOk_def)
  with below.hyps(1) have "c \<in> set (getChildren h' a)"
    by (simp add: sealExt_fields(3) [OF assms])
  moreover from treeValid_child [OF below.prems below.hyps(1)] have "descends h' c n"
    by (rule below.IH)
  ultimately show ?case by (rule descends.below)
qed

lemma descends_sealExt_back:
  assumes "sealExt h h'"
  shows "descends h' a b \<Longrightarrow> treeValid h a \<Longrightarrow> descends h a b"
proof (induction rule: descends.induct)
  case (here a)
  show ?case by (rule descends.here)
next
  case (below c a n)
  from treeValid_root [OF below.prems] have "a < length (nodes h)"
    by (simp add: nodeOk_def)
  with below.hyps(1) have c: "c \<in> set (getChildren h a)"
    by (simp add: sealExt_fields(3) [OF assms])
  moreover from treeValid_child [OF below.prems c] have "descends h c n"
    by (rule below.IH)
  ultimately show ?case by (rule descends.below)
qed

lemma treeValid_sealExt:
  assumes "treeValid h a" and "sealExt h h'"
  shows "treeValid h' a"
proof -
  have "nodeOk h' b" if "descends h' a b" for b
  proof -
    from that assms(1) have "descends h a b" by (rule descends_sealExt_back [OF assms(2)])
    with assms(1) have "nodeOk h b" by (simp add: treeValid_def)
    then show ?thesis using assms(2) by (rule nodeOk_sealExt)
  qed
  then show ?thesis by (simp add: treeValid_def)
qed

lemma sealPost_refl: "sealPost h h"
  by (simp add: sealPost_def sealExt_refl)

lemma sealPost_trans:
  assumes 1: "sealPost h h1" and 2: "sealPost h1 h2"
  shows "sealPost h h2"
proof -
  from 1 2 have e1: "sealExt h h1" and e2: "sealExt h1 h2" by (simp_all add: sealPost_def)
  then have e: "sealExt h h2" by (rule sealExt_trans)
  from e1 have len: "length (nodes h1) = length (nodes h)" by (simp add: sealExt_def)
  have "getSealed h b \<or> (nodeOk h2 b \<and> sealedBelow h2 b)"
    if b: "b < length (nodes h)" and s: "getSealed h2 b" for b
  proof -
    from 2 b s len have "getSealed h1 b \<or> (nodeOk h2 b \<and> sealedBelow h2 b)"
      by (simp add: sealPost_def)
    then show ?thesis
    proof
      assume "getSealed h1 b"
      with 1 b have "getSealed h b \<or> (nodeOk h1 b \<and> sealedBelow h1 b)"
        by (simp add: sealPost_def)
      then show ?thesis
        using nodeOk_sealExt [OF _ e2, of b] sealedBelow_sealExt [OF _ e2, of b] by auto
    qed simp
  qed
  with e show ?thesis by (simp add: sealPost_def)
qed


lemma sealRecursive_post:
  "treeValid h this \<Longrightarrow>
     fst (sealRecursive h this) = Inr () \<and> sealPost h (snd (sealRecursive h this))
     \<and> getSealed (snd (sealRecursive h this)) this"
  "\<forall>c \<in> set cs. treeValid h c \<Longrightarrow>
     fst (sealChildren h cs) = Inr () \<and> sealPost h (snd (sealChildren h cs))
     \<and> (\<forall>c \<in> set cs. getSealed (snd (sealChildren h cs)) c)"
proof (induction h this and h cs rule: sealRecursive_sealChildren.induct)
  case (1 h this)
  note tree = "1.prems"
  from treeValid_root [OF tree] have ok: "nodeOk h this" .
  then have valid: "this < length (nodes h)" by (simp add: nodeOk_def)
  show ?case
  proof (cases "getSealed h this")
    case True
    with valid show ?thesis by (simp add: sealRecursive.simps [of h this] sealPost_refl)
  next
    case False
    define h1 where "h1 = seal h this"
    define p where "p = props (nodes h1 ! this)"
    define h2 where "h2 = Props_seal h1 p"
    define l where "l = children (nodes h2 ! this)"
    define h' where "h' = snd (sealChildren h2 (childLists h2 ! l))"
    have e1: "sealExt h h1" by (simp add: h1_def sealExt_seal)
    have e12: "sealExt h1 h2" by (simp add: h2_def sealExt_Props_seal)
    from e1 e12 have e2: "sealExt h h2" by (rule sealExt_trans)
    from ok e1 have ok1: "nodeOk h1 this" by (rule nodeOk_sealExt)
    from ok e2 have ok2: "nodeOk h2 this" by (rule nodeOk_sealExt)
    from ok1 ok2 have valid1: "this < length (nodes h1)" and valid2: "this < length (nodes h2)"
      by (simp_all add: nodeOk_def)
    from ok1 have pv: "p < length (propsSealed h1)" by (simp add: p_def nodeOk_def)
    from ok2 have lv: "l < length (childLists h2)" by (simp add: l_def nodeOk_def)
    have cs: "childLists h2 ! l = getChildren h this"
      by (simp add: l_def getChildren_def [symmetric] sealExt_fields(3) [OF e2 valid])
    have kids_tree: "\<forall>c \<in> set (childLists h2 ! l). treeValid h2 c"
    proof
      fix c assume "c \<in> set (childLists h2 ! l)"
      then have "c \<in> set (getChildren h this)" by (simp add: cs)
      with tree have "treeValid h c" by (rule treeValid_child)
      then show "treeValid h2 c" using e2 by (rule treeValid_sealExt)
    qed
    have eq: "sealRecursive h this = sealChildren h2 (childLists h2 ! l)"
      using valid False pv lv
      by (simp add: sealRecursive.simps [of h this] Let_def h1_def [symmetric] p_def [symmetric]
          h2_def [symmetric] l_def [symmetric])
    from "1.IH" [OF _ False h1_def p_def _ h2_def l_def _ kids_tree] valid pv lv
    have r: "fst (sealChildren h2 (childLists h2 ! l)) = Inr ()"
      and post: "sealPost h2 h'"
      and kids: "\<forall>c \<in> set (childLists h2 ! l). getSealed h' c"
      by (simp_all add: h'_def)
    from post have e3: "sealExt h2 h'" by (simp add: sealPost_def)
    from e2 e3 have e: "sealExt h h'" by (rule sealExt_trans)
    from ok2 e3 have ok': "nodeOk h' this" by (rule nodeOk_sealExt)
    have s': "getSealed h' this"
      using sealRecursive_seals_self [OF valid] by (simp add: eq h'_def)
    have p2: "propsSealed h2 ! props (nodes h2 ! this)"
      using pv by (simp add: h2_def Props_seal_def p_def)
    have below_this: "sealedBelow h' this"
    proof -
      from ok2 have "props (nodes h2 ! this) < length (propsSealed h2)"
        by (simp add: nodeOk_def)
      with p2 e3 have "propsSealed h' ! props (nodes h2 ! this)"
        by (simp add: sealExt_def)
      then have "propsSealed h' ! props (nodes h' ! this)"
        by (simp add: sealExt_fields(2) [OF e3 valid2])
      moreover have "getChildren h' this = childLists h2 ! l"
        by (simp add: sealExt_fields(3) [OF e valid] cs)
      ultimately show ?thesis using kids by (simp add: sealedBelow_def)
    qed
    have old: "getSealed h b" if "b < length (nodes h)" "b \<noteq> this" "getSealed h2 b" for b
    proof -
      from that(1,2) have "nodes h2 ! b = nodes h ! b"
        by (simp add: h2_def h1_def Props_seal_def seal_def)
      with that(3) show ?thesis by (simp add: getSealed_def)
    qed
    have "getSealed h b \<or> (nodeOk h' b \<and> sealedBelow h' b)"
      if b: "b < length (nodes h)" and s: "getSealed h' b" for b
    proof (cases "b = this")
      case True
      with below_this ok' show ?thesis by simp
    next
      case False
      from e2 b have "b < length (nodes h2)" by (simp add: sealExt_def)
      with post s have "getSealed h2 b \<or> (nodeOk h' b \<and> sealedBelow h' b)"
        by (simp add: sealPost_def)
      with old [OF b False] show ?thesis by auto
    qed
    with e have "sealPost h h'" by (simp add: sealPost_def)
    with r s' show ?thesis by (simp add: eq h'_def)
  qed
next
  case (2 h)
  then show ?case by (simp add: sealPost_refl)
next
  case (3 h child rest)
  from "3.prems" have ct: "treeValid h child"
    and rt: "\<forall>c \<in> set rest. treeValid h c" by simp_all
  from treeValid_root [OF ct] have cv: "child < length (nodes h)" by (simp add: nodeOk_def)
  obtain r1 h1 where first: "sealRecursive h child = (r1, h1)"
    by (cases "sealRecursive h child")
  from "3.IH"(1) [OF ct] first have r1: "r1 = Inr ()" and post1: "sealPost h h1"
    and s1: "getSealed h1 child"
    by simp_all
  from post1 have e1: "sealExt h h1" by (simp add: sealPost_def)
  from e1 have len: "length (nodes h1) = length (nodes h)" by (simp add: sealExt_def)
  from rt e1 have rt1: "\<forall>c \<in> set rest. treeValid h1 c"
    by (auto intro: treeValid_sealExt)
  from "3.IH"(2) [OF first [symmetric] r1 rt1]
  have r2: "fst (sealChildren h1 rest) = Inr ()"
    and post2: "sealPost h1 (snd (sealChildren h1 rest))"
    and s2: "\<forall>c \<in> set rest. getSealed (snd (sealChildren h1 rest)) c"
    by simp_all
  from post2 have e2: "sealExt h1 (snd (sealChildren h1 rest))" by (simp add: sealPost_def)
  have eq: "sealChildren h (child # rest) = sealChildren h1 rest"
    using first r1 by simp
  from cv len have "child < length (nodes h1)" by simp
  from sealExt_fields(4) [OF e2 this s1]
  have "getSealed (snd (sealChildren h1 rest)) child" .
  with r2 s2 sealPost_trans [OF post1 post2] show ?case unfolding eq by simp
qed

text \<open>Along the children of sealed nodes that are fully sealed, everything is sealed.\<close>

lemma sealed_descends:
  assumes closed: "\<forall>x. descends h root x \<and> getSealed h' x \<longrightarrow>
      (\<forall>c \<in> set (getChildren h x). getSealed h' c)"
  shows "descends h a b \<Longrightarrow> descends h root a \<Longrightarrow> getSealed h' a \<Longrightarrow> getSealed h' b"
proof (induction rule: descends.induct)
  case (here a)
  then show ?case by simp
next
  case (below c a n)
  from closed below.prems below.hyps(1) have "getSealed h' c" by blast
  moreover from below.prems(1) below.hyps(1) have "descends h root c" by (rule descends_child)
  ultimately show ?case by (rule below.IH [rotated])
qed

section \<open>Sealing a tree\<close>

text \<open>
  Claim C3, as amended. \<open>sealRecursive\<close> on a root only seals: the store afterwards
  differs from the store before in sealed flags alone, and the root is sealed. A second
  \<open>sealRecursive\<close> on the same root returns at once and leaves the store as it is; this
  holds for every store. If the pointers of the nodes of the tree are valid, the call
  returns without a fault. If moreover every node of the tree that is already sealed has
  sealed props and only sealed children, then afterwards every node reachable from the
  root through children is sealed and has sealed props. The nodes of the store outside
  the tree play no part.
\<close>

theorem sealRecursive_seals_all:
  assumes "root < length (nodes h)"
  shows "let h' = snd (sealRecursive h root) in
       sealExt h h' \<and> getSealed h' root
     \<and> sealRecursive h' root = (Inr (), h')
     \<and> (treeValid h root \<longrightarrow> fst (sealRecursive h root) = Inr ())
     \<and> (treeValid h root \<and> treeClosed h root \<longrightarrow>
          (\<forall>b. descends h root b \<longrightarrow>
             getSealed h' b \<and> propsSealed h' ! props (nodes h' ! b)))"
proof -
  define h' where "h' = snd (sealRecursive h root)"
  have e: "sealExt h h'" by (simp add: h'_def sealExt_sealRecursive(1))
  then have len: "length (nodes h') = length (nodes h)" by (simp add: sealExt_def)
  from assms have s: "getSealed h' root" by (simp add: h'_def sealRecursive_seals_self)
  have again: "sealRecursive h' root = (Inr (), h')"
    using s assms len by (simp add: sealRecursive.simps [of h' root])
  have ret: "fst (sealRecursive h root) = Inr ()" if "treeValid h root"
    using sealRecursive_post(1) [OF that] by simp
  have all: "getSealed h' b \<and> propsSealed h' ! props (nodes h' ! b)"
    if tree: "treeValid h root" and closed: "treeClosed h root" and d: "descends h root b" for b
  proof -
    from sealRecursive_post(1) [OF tree] have post: "sealPost h h'" by (simp add: h'_def)
    have full: "sealedBelow h' x" if x: "descends h root x" and sx: "getSealed h' x" for x
    proof -
      from tree x have okx: "nodeOk h x" by (simp add: treeValid_def)
      then have "x < length (nodes h)" by (simp add: nodeOk_def)
      with post sx have "getSealed h x \<or> sealedBelow h' x" by (auto simp: sealPost_def)
      then show ?thesis
      proof
        assume "getSealed h x"
        with closed x have "sealedBelow h x" by (simp add: treeClosed_def)
        with okx e show ?thesis by (rule sealedBelow_sealExt)
      qed
    qed
    have kids: "\<forall>c \<in> set (getChildren h x). getSealed h' c"
      if x: "descends h root x" and sx: "getSealed h' x" for x
    proof -
      from tree x have "x < length (nodes h)" by (simp add: treeValid_def nodeOk_def)
      then have "getChildren h' x = getChildren h x" by (rule sealExt_fields(3) [OF e])
      with full [OF x sx] show ?thesis by (simp add: sealedBelow_def)
    qed
    from kids have "\<forall>x. descends h root x \<and> getSealed h' x \<longrightarrow>
        (\<forall>c \<in> set (getChildren h x). getSealed h' c)" by blast
    from sealed_descends [OF this d descends.here s] have "getSealed h' b" .
    with full [OF d] show ?thesis by (simp add: sealedBelow_def)
  qed
  from e s again ret all show ?thesis by (simp add: h'_def [symmetric])
qed

text \<open>In \<open>exHeap\<close> the tree below node 0 consists of the nodes 0, 1 and 2.\<close>

lemma exHeap_tree: "descends exHeap a b \<Longrightarrow> a \<in> {0, 1, 2} \<Longrightarrow> b \<in> {0, 1, 2}"
proof (induction rule: descends.induct)
  case (here a)
  then show ?case by simp
next
  case (below c a n)
  from below.prems below.hyps(1) have "c \<in> {0, 1, 2}"
    by (auto simp: ex_defs)
  then show ?case by (rule below.IH)
qed

lemma exHeap_treeValid: "treeValid exHeap 0 \<and> treeClosed exHeap 0"
proof -
  have "nodeOk exHeap b \<and> \<not> getSealed exHeap b" if "descends exHeap 0 b" for b
  proof -
    from that have "b \<in> {0, 1, 2}" by (rule exHeap_tree) simp
    then show ?thesis by (auto simp: ex_defs nodeOk_def)
  qed
  then show ?thesis by (simp add: treeValid_def treeClosed_def)
qed

theorem sealRecursive_seals_all_witness:
  "0 < length (nodes exHeap) \<and> treeValid exHeap 0 \<and> treeClosed exHeap 0
   \<and> descends exHeap 0 2
   \<and> fst (sealRecursive exHeap 0) = Inr ()
   \<and> getSealed (snd (sealRecursive exHeap 0)) 0
   \<and> getSealed (snd (sealRecursive exHeap 0)) 2
   \<and> propsSealed (snd (sealRecursive exHeap 0))
        ! props (nodes (snd (sealRecursive exHeap 0)) ! 2)
   \<and> sealRecursive (snd (sealRecursive exHeap 0)) 0
        = (Inr (), snd (sealRecursive exHeap 0))"
proof -
  have root: "0 < length (nodes exHeap)" by (simp add: ex_defs)
  have d: "descends exHeap 0 2"
    by (rule descends.below [of 2]) (simp_all add: ex_defs descends.here)
  from sealRecursive_seals_all [OF root] exHeap_treeValid root d show ?thesis
    by (simp add: Let_def)
qed

text \<open>Claim C3 as stated fails. In the chain 0, 1, 2 node 1 has been sealed by \<open>seal\<close>
  alone. \<open>sealRecursive\<close> on node 0 returns from node 1 at once, and node 2, which is
  reachable from node 0, stays unsealed.\<close>

theorem sealRecursive_skips_counterexample:
  "descends chainHeap 0 2 \<and> fst (sealRecursive chainHeap 0) = Inr ()
   \<and> \<not> getSealed (snd (sealRecursive chainHeap 0)) 2"
proof -
  have "descends chainHeap (Suc 0) 2"
    by (rule descends.below [of 2]) (simp_all add: ex_defs descends.here)
  then have d: "descends chainHeap 0 2"
    by (rule descends.below [of "Suc 0", rotated]) (simp add: ex_defs)
  have "sealRecursive chainHeap 0 =
      (Inr (), chainHeap\<lparr>nodes := (nodes chainHeap)[0 := (nodes chainHeap ! 0)\<lparr>sealed := True\<rparr>],
         propsSealed := [True]\<rparr>)"
    by (simp add: sealRecursive.simps ex_defs seal_def Props_seal_def Let_def)
  with d show ?thesis by (simp add: ex_defs)
qed

end
